theory Spec2Isabelle
  imports Main "HOL-Library.Word"
begin

unbundle bit_operations_syntax

section \<open>Bytes, errors and the tree specification\<close>

text \<open>
  A Go \<open>[]byte\<close> is a list of 8-bit words. Where the code tests a slice against
  \<open>nil\<close> (the optional fields of a proof) the field is an \<open>option\<close>; where it only
  reads the length and the contents, it is a list.
\<close>

type_synonym byte = "8 word"
type_synonym bytes = "byte list"

text \<open>
  \<open>ErrBadProof\<close> is the package's error value. \<open>ErrDigest\<close> stands for whatever error
  \<open>digestSumNode\<close> hands back, \<open>ErrStorage\<close> for a failure of the storage
  collaborator. \<open>IndexOutOfRange\<close> records a Go run-time panic (an
  index or slice bound out of range); it is not a returned error, and the model
  keeps it apart so that "returns without error" also says "does not panic".
\<close>

datatype error = ErrBadProof | ErrDigest | ErrStorage | IndexOutOfRange

text \<open>
  \<open>TreeSpec\<close> bundles the path hasher \<open>spec.ph\<close>, the tree hasher \<open>spec.th\<close> and the
  package functions that take them. Their bodies are declared elsewhere in the
  package, so each is a field of the record, a total function: \<open>PathSize\<close> and \<open>Path\<close> for \<open>spec.ph\<close>;
  \<open>hashSize\<close>, \<open>sumPlaceholder\<close>, \<open>digestSumLeaf\<close> and \<open>digestSumNode\<close> for
  \<open>spec.th\<close>; \<open>digestValue\<close> for \<open>spec.digestValue\<close>; \<open>parseSumLeaf\<close> and
  \<open>hashSumSerialization\<close> for the package functions of these names.
\<close>

record TreeSpec =
  PathSize :: nat
  Path :: "bytes \<Rightarrow> bytes"
  hashSize :: nat
  sumPlaceholder :: bytes
  digestSumLeaf :: "bytes \<Rightarrow> bytes \<Rightarrow> bytes \<Rightarrow> bytes \<times> bytes"
  digestSumNode :: "bytes \<Rightarrow> bytes \<Rightarrow> error + bytes \<times> bytes"
  digestValue :: "bytes \<Rightarrow> bytes"
  parseSumLeaf :: "bytes \<Rightarrow> bytes \<times> bytes \<times> bytes"
  hashSumSerialization :: "bytes \<Rightarrow> bytes"

text \<open>
  Modelled from the spec: the package constant \<open>leafPrefix\<close>, whose declaration is not
  among the source files. The spec gives every record kind one tag byte; the code
  reads only \<open>len(leafPrefix)\<close>.
\<close>

definition leafPrefix :: bytes where
  "leafPrefix = [0]"

text \<open>
  Modelled from the spec: the package constant \<open>defaultValue\<close>, whose declaration is
  not among the source files. The spec calls it the sentinel of an absent value; the
  closest-key test verifies a nil value as a non-membership claim, so it is the empty
  byte string.
\<close>

definition defaultValue :: bytes where
  "defaultValue = []"

text \<open>
  Modelled from the spec: the package constant \<open>left\<close>, whose declaration is not among
  the source files. The spec fixes navigation bit 0 as left and bit 1 as right.
\<close>

definition left :: nat where
  "left = 0"

section \<open>Bit-indexed paths\<close>

text \<open>
  Modelled from the spec: \<open>getPathBit\<close>, a utility over byte sequences whose body is
  not among the source files. The spec fixes the convention: position \<open>p\<close> is bit
  \<open>p mod 8\<close> of byte \<open>p div 8\<close>, counted from the most significant bit. Indexing
  past the end of the slice panics in Go: the result is \<open>None\<close>.
\<close>

definition getPathBit :: "bytes \<Rightarrow> nat \<Rightarrow> nat option" where
  "getPathBit data position =
     (if position div 8 < length data
      then Some (if bit (data ! (position div 8)) (7 - position mod 8) then 1 else 0)
      else None)"

text \<open>
  Modelled from the spec: \<open>setPathBit\<close>, whose body is not among the source files. It
  sets the bit that \<open>getPathBit\<close> reads at the same position, in place; the model
  returns the updated slice, or \<open>None\<close> for the panic past the end.
\<close>

definition setPathBit :: "bytes \<Rightarrow> nat \<Rightarrow> bytes option" where
  "setPathBit data position =
     (if position div 8 < length data
      then Some (data[position div 8 :=
                   set_bit (7 - position mod 8) (data ! (position div 8))])
      else None)"

text \<open>
  Modelled from the spec: \<open>countSetBits\<close>, whose body is not among the source files:
  the number of set bits of a byte sequence, over all eight bits of every byte.
\<close>

definition countSetBits :: "bytes \<Rightarrow> nat" where
  "countSetBits data =
     length (filter (\<lambda>i. getPathBit data i = Some 1) [0..<length data * 8])"

text \<open>
  \<open>int(math.Ceil(float64(n)/float64(8)))\<close>: the ceiling of \<open>n / 8\<close>. On the integers
  this is \<open>- ((- n) div 8)\<close> (\<open>div\<close> rounds down); the float computation is exact for
  every \<open>n\<close> below \<open>2 ^ 53\<close>.
\<close>

definition ceilDiv8 :: "int \<Rightarrow> int" where
  "ceilDiv8 n = - ((- n) div 8)"

text \<open>
  \<open>node := make([]byte, n); copy(node, src)\<close>: a fresh zeroed slice of \<open>n\<close> bytes,
  overwritten with the first \<open>min n (len src)\<close> bytes of \<open>src\<close>.
\<close>

definition copyBytes :: "nat \<Rightarrow> bytes \<Rightarrow> bytes" where
  "copyBytes n src = take n src @ replicate (n - length src) 0"

section \<open>Proofs and their sanity checks\<close>

record SparseMerkleSumProof =
  SideNodes :: "bytes list"
  NonMembershipLeafData :: "bytes option"
  SiblingData :: "bytes option"

record SparseCompactMerkleSumProof =
  cSideNodes :: "bytes list"
  cNonMembershipLeafData :: "bytes option"
  BitMask :: bytes
  NumSideNodes :: int
  cSiblingData :: "bytes option"

definition sanityCheck :: "TreeSpec \<Rightarrow> SparseMerkleSumProof \<Rightarrow> bool" where
  "sanityCheck spec proof =
     (if length (SideNodes proof) > PathSize spec * 8 \<or>
         (case NonMembershipLeafData proof of
            None \<Rightarrow> False
          | Some d \<Rightarrow> length d < length leafPrefix + PathSize spec)
      then False
      else if \<exists>v \<in> set (SideNodes proof). length v \<noteq> hashSize spec + 16
      then False
      else (case SiblingData proof of
              None \<Rightarrow> True
            | Some sd \<Rightarrow>
                if length (SideNodes proof) = 0 then True
                else SideNodes proof ! 0 = hashSumSerialization spec sd))"

definition compactSanityCheck :: "TreeSpec \<Rightarrow> SparseCompactMerkleSumProof \<Rightarrow> bool" where
  "compactSanityCheck spec proof =
     (if NumSideNodes proof < 0 \<or> NumSideNodes proof > int (PathSize spec * 8) \<or>
         int (length (BitMask proof)) \<noteq> ceilDiv8 (NumSideNodes proof) \<or>
         (NumSideNodes proof > 0 \<and>
          int (length (cSideNodes proof))
            \<noteq> NumSideNodes proof - int (countSetBits (BitMask proof)))
      then False
      else True)"

section \<open>Compaction and decompaction\<close>

function compactLoop ::
  "TreeSpec \<Rightarrow> bytes list \<Rightarrow> nat \<Rightarrow> bytes \<Rightarrow> bytes list \<Rightarrow> error + bytes \<times> bytes list" where
  "compactLoop spec sideNodes i bitMask compactedSideNodes =
     (if i < length sideNodes then
        (let node = copyBytes (hashSize spec + 16) (sideNodes ! i) in
         if node = sumPlaceholder spec then
           (case setPathBit bitMask i of
              None \<Rightarrow> Inl IndexOutOfRange
            | Some bitMask' \<Rightarrow> compactLoop spec sideNodes (i + 1) bitMask' compactedSideNodes)
         else compactLoop spec sideNodes (i + 1) bitMask (compactedSideNodes @ [node]))
      else Inr (bitMask, compactedSideNodes))"
  by pat_completeness auto
termination
  by (relation "measure (\<lambda>(spec, sideNodes, i, bitMask, acc). length sideNodes - i)") auto

definition CompactSumProof ::
  "TreeSpec \<Rightarrow> SparseMerkleSumProof \<Rightarrow> error + SparseCompactMerkleSumProof" where
  "CompactSumProof spec proof =
     (if \<not> sanityCheck spec proof then Inl ErrBadProof
      else
        (case compactLoop spec (SideNodes proof) 0
                (replicate (nat (ceilDiv8 (int (length (SideNodes proof))))) 0) [] of
           Inl err \<Rightarrow> Inl err
         | Inr (bitMask, compactedSideNodes) \<Rightarrow>
             Inr \<lparr> cSideNodes = compactedSideNodes,
                   cNonMembershipLeafData = NonMembershipLeafData proof,
                   BitMask = bitMask,
                   NumSideNodes = int (length (SideNodes proof)),
                   cSiblingData = SiblingData proof \<rparr>))"

function decompactLoop ::
  "TreeSpec \<Rightarrow> SparseCompactMerkleSumProof \<Rightarrow> nat \<Rightarrow> nat \<Rightarrow> bytes list \<Rightarrow> error + bytes list" where
  "decompactLoop spec proof i position decompactedSideNodes =
     (if int i < NumSideNodes proof then
        (case getPathBit (BitMask proof) i of
           None \<Rightarrow> Inl IndexOutOfRange
         | Some b \<Rightarrow>
             if b = 1 then
               decompactLoop spec proof (i + 1) position
                 (decompactedSideNodes[i := sumPlaceholder spec])
             else if position < length (cSideNodes proof) then
               decompactLoop spec proof (i + 1) (position + 1)
                 (decompactedSideNodes[i := cSideNodes proof ! position])
             else Inl IndexOutOfRange)
      else Inr decompactedSideNodes)"
  by pat_completeness auto
termination
  by (relation "measure (\<lambda>(spec, proof, i, position, acc). nat (NumSideNodes proof) - i)") auto

definition DecompactSumProof ::
  "TreeSpec \<Rightarrow> SparseCompactMerkleSumProof \<Rightarrow> error + SparseMerkleSumProof" where
  "DecompactSumProof spec proof =
     (if \<not> compactSanityCheck spec proof then Inl ErrBadProof
      else
        (case decompactLoop spec proof 0 0 (replicate (nat (NumSideNodes proof)) []) of
           Inl err \<Rightarrow> Inl err
         | Inr decompactedSideNodes \<Rightarrow>
             Inr \<lparr> SideNodes = decompactedSideNodes,
                   NonMembershipLeafData = cNonMembershipLeafData proof,
                   SiblingData = cSiblingData proof \<rparr>))"

declare compactLoop.simps [simp del]
declare decompactLoop.simps [simp del]

section \<open>Verification\<close>

text \<open>
  \<open>binary.BigEndian.PutUint64\<close> and \<open>binary.BigEndian.Uint64\<close> of the Go standard
  library: eight bytes, most significant first. Reading needs eight bytes and panics
  on a shorter slice.
\<close>

definition PutUint64 :: "64 word \<Rightarrow> bytes" where
  "PutUint64 v =
     [ucast (drop_bit 56 v), ucast (drop_bit 48 v), ucast (drop_bit 40 v),
      ucast (drop_bit 32 v), ucast (drop_bit 24 v), ucast (drop_bit 16 v),
      ucast (drop_bit 8 v), ucast v]"

definition Uint64 :: "bytes \<Rightarrow> 64 word option" where
  "Uint64 b =
     (if length b < 8 then None
      else Some (ucast (b ! 7) OR push_bit 8 (ucast (b ! 6)) OR push_bit 16 (ucast (b ! 5)) OR
                 push_bit 24 (ucast (b ! 4)) OR push_bit 32 (ucast (b ! 3)) OR
                 push_bit 40 (ucast (b ! 2)) OR push_bit 48 (ucast (b ! 1)) OR
                 push_bit 56 (ucast (b ! 0))))"

text \<open>
  \<open>hex.DecodeString(fmt.Sprintf("%016x", sum))\<close>: the sum printed as sixteen hex
  digits (a \<open>uint64\<close> never needs more; the parameter \<open>sum\<close> is written \<open>sumArg\<close>
  here, as \<open>sum\<close> is a constant of HOL) and read back is its eight big-endian bytes,
  and the decoding cannot fail. \<open>copy(hexSum[16-len(hexBz):], hexBz)\<close> puts them in
  the second half of the zeroed \<open>[16]byte\<close>.
\<close>

definition hexSum :: "64 word \<Rightarrow> bytes" where
  "hexSum v = replicate (16 - length (PutUint64 v)) 0 @ PutUint64 v"

type_synonym updates = "(bytes \<times> bytes) list"

function recomputeLoop ::
  "TreeSpec \<Rightarrow> bytes list \<Rightarrow> bytes \<Rightarrow> nat \<Rightarrow> bytes \<Rightarrow> updates \<Rightarrow> error + bytes \<times> updates" where
  "recomputeLoop spec sideNodes path i currentHash updates =
     (if i < length sideNodes then
        (let node = copyBytes (hashSize spec + 16) (sideNodes ! i) in
         case getPathBit path (length sideNodes - 1 - i) of
           None \<Rightarrow> Inl IndexOutOfRange
         | Some b \<Rightarrow>
             (case (if b = left then digestSumNode spec currentHash node
                    else digestSumNode spec node currentHash) of
                Inl err \<Rightarrow> Inl err
              | Inr (currentHash', currentData) \<Rightarrow>
                  recomputeLoop spec sideNodes path (i + 1) currentHash'
                    (updates @ [(currentHash', currentData)])))
      else Inr (currentHash, updates))"
  by pat_completeness auto
termination
  by (relation "measure (\<lambda>(spec, sideNodes, path, i, h, u). length sideNodes - i)") auto

declare recomputeLoop.simps [simp del]

text \<open>The part of \<open>verifySumProofWithUpdates\<close> from the comment "Recompute root" on.\<close>

definition recomputeRoot ::
  "TreeSpec \<Rightarrow> SparseMerkleSumProof \<Rightarrow> bytes \<Rightarrow> bytes \<Rightarrow> bytes \<Rightarrow> updates
     \<Rightarrow> bool \<times> updates \<times> error option" where
  "recomputeRoot spec proof root path currentHash updates =
     (case recomputeLoop spec (SideNodes proof) path 0 currentHash updates of
        Inl err \<Rightarrow> (False, [], Some err)
      | Inr (currentHash', updates') \<Rightarrow> (currentHash' = root, updates', None))"

text \<open>
  The part of \<open>verifySumProofWithUpdates\<close> under the comment "Determine what the leaf
  hash should be": the starting value of \<open>currentHash\<close> and of \<open>updates\<close>, or the
  error of a non-membership claim whose attached leaf lies on the queried path.
\<close>

definition leafHash ::
  "TreeSpec \<Rightarrow> SparseMerkleSumProof \<Rightarrow> bytes \<Rightarrow> bytes \<Rightarrow> bytes \<Rightarrow> error + bytes \<times> updates" where
  "leafHash spec proof path value sumArg =
     (if value = defaultValue then
        (case NonMembershipLeafData proof of
           None \<Rightarrow> Inr (sumPlaceholder spec, [])
         | Some leafData \<Rightarrow>
             (case parseSumLeaf spec leafData of
                (actualPath, valueHash, actualSum) \<Rightarrow>
                  if actualPath = path then Inl ErrBadProof
                  else
                    (case digestSumLeaf spec actualPath valueHash actualSum of
                       (currentHash, currentData) \<Rightarrow>
                         Inr (currentHash, [(currentHash, currentData)]))))
      else
        (let valueHash = digestValue spec value in
         case digestSumLeaf spec path valueHash sumArg of
           (currentHash, currentData) \<Rightarrow> Inr (currentHash, [(currentHash, currentData)])))"

definition verifySumProofWithUpdates ::
  "TreeSpec \<Rightarrow> SparseMerkleSumProof \<Rightarrow> bytes \<Rightarrow> bytes \<Rightarrow> bytes \<Rightarrow> bytes
     \<Rightarrow> bool \<times> updates \<times> error option" where
  "verifySumProofWithUpdates spec proof root key value sumArg =
     (let path = Path spec key in
      if \<not> sanityCheck spec proof then (False, [], Some ErrBadProof)
      else
        (case leafHash spec proof path value sumArg of
           Inl err \<Rightarrow> (False, [], Some err)
         | Inr (currentHash, updates) \<Rightarrow>
             recomputeRoot spec proof root path currentHash updates))"

definition VerifySumProof ::
  "TreeSpec \<Rightarrow> SparseMerkleSumProof \<Rightarrow> bytes \<Rightarrow> bytes \<Rightarrow> bytes \<Rightarrow> 64 word
     \<Rightarrow> bool \<times> error option" where
  "VerifySumProof spec proof root key value sumArg =
     (case verifySumProofWithUpdates spec proof root key value (hexSum sumArg) of
        (result, updates, err) \<Rightarrow>
          (case err of Some e \<Rightarrow> (False, Some e) | None \<Rightarrow> (result, None)))"

section \<open>An example tree specification\<close>

text \<open>
  A small tree specification on which the definitions can be evaluated: paths of
  one byte (the first byte of the key), digests of one byte (the sum of the bytes
  hashed), sums of sixteen bytes with the number in the last eight. A node is its
  digest followed by its sum; an inner node adds the sums of its children.
\<close>

definition exDigest :: "bytes \<Rightarrow> bytes" where
  "exDigest data = [foldr (+) data 0]"

definition exSum :: "bytes \<Rightarrow> 64 word" where
  "exSum node = (case Uint64 (drop (length node - 8) node) of None \<Rightarrow> 0 | Some v \<Rightarrow> v)"

definition exDigestSumLeaf :: "bytes \<Rightarrow> bytes \<Rightarrow> bytes \<Rightarrow> bytes \<times> bytes" where
  "exDigestSumLeaf path valueHash leafSum =
     (let data = leafPrefix @ path @ valueHash @ leafSum in (exDigest data @ leafSum, data))"

definition exDigestSumNode :: "bytes \<Rightarrow> bytes \<Rightarrow> error + bytes \<times> bytes" where
  "exDigestSumNode leftData rightData =
     (if length leftData < 17 \<or> length rightData < 17 then Inl ErrDigest
      else
        (let data = [1] @ leftData @ rightData in
         Inr (exDigest data @ hexSum (exSum leftData + exSum rightData), data)))"

definition exampleSpec :: TreeSpec where
  "exampleSpec =
     \<lparr> PathSize = 1,
       Path = copyBytes 1,
       hashSize = 1,
       sumPlaceholder = replicate 17 0,
       digestSumLeaf = exDigestSumLeaf,
       digestSumNode = exDigestSumNode,
       digestValue = exDigest,
       parseSumLeaf = (\<lambda>data. (take 1 (drop 1 data), take 1 (drop 2 data), drop 3 data)),
       hashSumSerialization = (\<lambda>data. exDigest data @ drop (length data - 16) data) \<rparr>"

section \<open>The statements of the spec, in its own words\<close>

text \<open>
  The rejection condition of the proof sanity check as the spec words it: the
  sidenode count exceeds the path bit-length, or some sidenode's byte length differs
  from \<open>digestSize + 8\<close>, or non-membership leaf data is present and undersized, or
  sibling data is present and does not hash to the first sidenode.
\<close>

definition specRejects :: "TreeSpec \<Rightarrow> SparseMerkleSumProof \<Rightarrow> bool" where
  "specRejects spec proof =
     (length (SideNodes proof) > PathSize spec * 8 \<or>
      (\<exists>v \<in> set (SideNodes proof). length v \<noteq> hashSize spec + 8) \<or>
      (case NonMembershipLeafData proof of
         None \<Rightarrow> False
       | Some d \<Rightarrow> length d < length leafPrefix + PathSize spec) \<or>
      (case SiblingData proof of
         None \<Rightarrow> False
       | Some sd \<Rightarrow>
           SideNodes proof \<noteq> [] \<and> hashSumSerialization spec sd \<noteq> hd (SideNodes proof)))"

text \<open>
  The compact-proof sanity check as the spec words it: \<open>0 \<le> NumSideNodes \<le>\<close> path
  bit-length; the bitmask byte-length is \<open>ceil(NumSideNodes/8)\<close>; the number of
  supplied sidenodes is \<open>NumSideNodes\<close> minus the number of set bits of the bitmask.
\<close>

definition specCompactSanity :: "TreeSpec \<Rightarrow> SparseCompactMerkleSumProof \<Rightarrow> bool" where
  "specCompactSanity spec proof =
     (0 \<le> NumSideNodes proof \<and> NumSideNodes proof \<le> int (PathSize spec * 8) \<and>
      int (length (BitMask proof)) = ceilDiv8 (NumSideNodes proof) \<and>
      int (length (cSideNodes proof))
        = NumSideNodes proof - int (countSetBits (BitMask proof)))"

text \<open>
  The fold of the spec (4.5, step 3): sidenodes are taken leaf-first; at sidenode
  index \<open>i\<close> the path bit at position \<open>numSideNodes - 1 - i\<close> selects the orientation:
  bit 0 makes the accumulated node the left child and the sidenode the right
  sibling, bit 1 the reverse; the pair is combined by \<open>digestSumNode\<close>.
\<close>

fun foldSideNodes ::
  "TreeSpec \<Rightarrow> bytes \<Rightarrow> nat \<Rightarrow> bytes list \<Rightarrow> nat \<Rightarrow> bytes \<Rightarrow> error + bytes" where
  "foldSideNodes spec path numSideNodes [] i acc = Inr acc"
| "foldSideNodes spec path numSideNodes (sideNode # rest) i acc =
     (case getPathBit path (numSideNodes - 1 - i) of
        None \<Rightarrow> Inl IndexOutOfRange
      | Some b \<Rightarrow>
          (case (if b = 0 then digestSumNode spec acc sideNode
                 else digestSumNode spec sideNode acc) of
             Inl err \<Rightarrow> Inl err
           | Inr (acc', accData) \<Rightarrow> foldSideNodes spec path numSideNodes rest (i + 1) acc'))"

section \<open>The sum tree over its key-value store\<close>

text \<open>
  Modelled from the spec: the wrapped \<open>SMT\<close>, whose source is not among the source
  files, by what the spec says of it as a key-value mapping: a finite map from paths
  to the stored value bytes, and the failure of the storage collaborator, if it has
  one.
\<close>

record SMT =
  entries :: "bytes \<rightharpoonup> bytes"
  storeError :: "error option"

text \<open>
  Modelled from the spec: \<open>SMT.Get\<close>, whose body is not among the source files. It
  resolves an absent key to the \<open>defaultValue\<close> sentinel, never changes the tree,
  and hands a storage failure on unchanged.
\<close>

definition SMT_Get :: "TreeSpec \<Rightarrow> SMT \<Rightarrow> bytes \<Rightarrow> error + bytes" where
  "SMT_Get spec smt key =
     (case storeError smt of
        Some err \<Rightarrow> Inl err
      | None \<Rightarrow>
          (case entries smt (Path spec key) of
             None \<Rightarrow> Inr defaultValue
           | Some valueHash \<Rightarrow> Inr valueHash))"

text \<open>
  Modelled from the spec: \<open>SMT.Update\<close>, whose body is not among the source files. It
  binds the path of the key to the value and hands a storage failure on unchanged.
  The constructor of the sum tree gives the wrapped tree no value hasher
  (\<open>WithValueHasher(nil)\<close>), so it stores the bytes it is given.
\<close>

definition SMT_Update :: "TreeSpec \<Rightarrow> SMT \<Rightarrow> bytes \<Rightarrow> bytes \<Rightarrow> error + SMT" where
  "SMT_Update spec smt key value =
     (case storeError smt of
        Some err \<Rightarrow> Inl err
      | None \<Rightarrow> Inr (smt\<lparr>entries := (entries smt)(Path spec key \<mapsto> value)\<rparr>))"

text \<open>
  Modelled from the spec: the package constant \<open>sumSize\<close>, whose declaration is not
  among the source files: the length of a sum field, which the spec fixes at eight
  bytes.
\<close>

definition sumSize :: nat where
  "sumSize = 8"

text \<open>
  \<open>SMST.Get\<close> and \<open>SMST.Update\<close> of \<open>smst.go\<close>. In \<open>Get\<close> the slice expression
  \<open>valueHash[len(valueHash)-sumSize:]\<close> panics on a stored value shorter than
  \<open>sumSize\<close>, and the result carries no tree: \<open>Get\<close> has nothing to change in it.
  In \<open>Update\<close>, \<open>PutUint64\<close> writes the first eight bytes of the zeroed array
  \<open>sumBz\<close> of \<open>sumSize\<close> bytes.
\<close>

definition SMST_Get :: "TreeSpec \<Rightarrow> SMT \<Rightarrow> bytes \<Rightarrow> error + bytes \<times> 64 word" where
  "SMST_Get spec smt key =
     (case SMT_Get spec smt key of
        Inl err \<Rightarrow> Inl err
      | Inr valueHash \<Rightarrow>
          if valueHash = defaultValue then Inr (defaultValue, 0)
          else if length valueHash < sumSize then Inl IndexOutOfRange
          else
            (let sumBz = copyBytes sumSize (drop (length valueHash - sumSize) valueHash) in
             case Uint64 sumBz of
               None \<Rightarrow> Inl IndexOutOfRange
             | Some sumArg \<Rightarrow> Inr (take (length valueHash - sumSize) valueHash, sumArg)))"

definition SMST_Update ::
  "TreeSpec \<Rightarrow> SMT \<Rightarrow> bytes \<Rightarrow> bytes \<Rightarrow> 64 word \<Rightarrow> error + SMT" where
  "SMST_Update spec smt key value sumArg =
     (let valueHash = digestValue spec value;
          sumBz = copyBytes sumSize (PutUint64 sumArg);
          valueHash' = valueHash @ sumBz
      in SMT_Update spec smt key valueHash')"

section \<open>The closest-key query\<close>

text \<open>
  Modelled from the spec: the node tree that \<open>ProveClosest\<close> walks, whose declaration
  is not among the source files. A tree is a placeholder (the empty subtree), a leaf
  with its path, value digest and sum, or an inner node; an extension node is, in the
  words of the spec, logically a chain of inner nodes and is represented as one.
\<close>

datatype node = Placeholder | Leaf bytes bytes "64 word" | Inner node node

text \<open>
  Modelled from the spec: the encoding \<open>hash\<parallel>sum\<close> of a node (the tree hashing is
  not among the source files): the placeholder encoding, \<open>digestSumLeaf\<close> of a leaf,
  \<open>digestSumNode\<close> of the two child encodings.
\<close>

fun nodeEncoding :: "TreeSpec \<Rightarrow> node \<Rightarrow> error + bytes" where
  "nodeEncoding spec Placeholder = Inr (sumPlaceholder spec)"
| "nodeEncoding spec (Leaf path valueHash leafSum) =
     Inr (fst (digestSumLeaf spec path valueHash (hexSum leafSum)))"
| "nodeEncoding spec (Inner l r) =
     (case nodeEncoding spec l of
        Inl err \<Rightarrow> Inl err
      | Inr leftData \<Rightarrow>
          (case nodeEncoding spec r of
             Inl err \<Rightarrow> Inl err
           | Inr rightData \<Rightarrow>
               (case digestSumNode spec leftData rightData of
                  Inl err \<Rightarrow> Inl err
                | Inr (h, d) \<Rightarrow> Inr h)))"

text \<open>
  Modelled from the spec: \<open>Root\<close>, whose body is not among the source files: the
  encoding of the top node, \<open>hash\<parallel>totalSum\<close>; for the empty tree the placeholder.
\<close>

definition Root :: "TreeSpec \<Rightarrow> node \<Rightarrow> error + bytes" where
  "Root spec tree = nodeEncoding spec tree"

text \<open>
  Modelled from the spec: the walk of \<open>ProveClosest\<close>, whose body is not among the
  source files (only a test calls it). It follows the bits of the query path through
  inner nodes, recording the encoding of the sibling not taken, and stops at the leaf
  or placeholder it reaches; the sidenodes are listed leaf to root. At a placeholder
  it returns a nil key, a nil value and sum 0; at a leaf, the leaf's path, value
  digest and sum.
\<close>

fun proveClosestFrom ::
  "TreeSpec \<Rightarrow> bytes \<Rightarrow> node \<Rightarrow> nat \<Rightarrow> bytes list
     \<Rightarrow> error + bytes option \<times> bytes option \<times> 64 word \<times> SparseMerkleSumProof" where
  "proveClosestFrom spec path Placeholder depth sideNodes =
     Inr (None, None, 0,
          \<lparr>SideNodes = sideNodes, NonMembershipLeafData = None, SiblingData = None\<rparr>)"
| "proveClosestFrom spec path (Leaf leafPath valueHash leafSum) depth sideNodes =
     Inr (Some leafPath, Some valueHash, leafSum,
          \<lparr>SideNodes = sideNodes, NonMembershipLeafData = None, SiblingData = None\<rparr>)"
| "proveClosestFrom spec path (Inner l r) depth sideNodes =
     (case getPathBit path depth of
        None \<Rightarrow> Inl IndexOutOfRange
      | Some b \<Rightarrow>
          if b = left then
            (case nodeEncoding spec r of
               Inl err \<Rightarrow> Inl err
             | Inr sibling \<Rightarrow> proveClosestFrom spec path l (depth + 1) (sibling # sideNodes))
          else
            (case nodeEncoding spec l of
               Inl err \<Rightarrow> Inl err
             | Inr sibling \<Rightarrow> proveClosestFrom spec path r (depth + 1) (sibling # sideNodes)))"

text \<open>
  Modelled from the spec: \<open>ProveClosest\<close>, whose body is not among the source files:
  the walk from the top node at depth 0 with no sidenodes yet.
\<close>

definition ProveClosest ::
  "TreeSpec \<Rightarrow> node \<Rightarrow> bytes
     \<Rightarrow> error + bytes option \<times> bytes option \<times> 64 word \<times> SparseMerkleSumProof" where
  "ProveClosest spec tree path = proveClosestFrom spec path tree 0 []"

text \<open>A nil byte slice handed on as a key or a value is the empty byte string.\<close>

definition bytesOf :: "bytes option \<Rightarrow> bytes" where
  "bytesOf b = (case b of None \<Rightarrow> [] | Some data \<Rightarrow> data)"

section \<open>Properties of the encodings\<close>

lemma copyBytes_same_length: "length src = n \<Longrightarrow> copyBytes n src = src"
  by (simp add: copyBytes_def)

lemma ceilDiv8_least: "n \<le> 8 * ceilDiv8 n \<and> 8 * (ceilDiv8 n - 1) < n"
  unfolding ceilDiv8_def by presburger

lemma ceilDiv8_nat: "n \<le> 8 * nat (ceilDiv8 (int n))" "int (nat (ceilDiv8 (int n))) = ceilDiv8 (int n)"
  using ceilDiv8_least [of "int n"] by linarith+

lemma Uint64_PutUint64: "Uint64 (PutUint64 v) = Some v"
proof -
  have *: "(k \<le> n \<and> n - k < 64 \<and> n - k < 8 \<and> bit v (k + (n - k)))
             = (k \<le> n \<and> n < k + 8 \<and> bit v n)" for k n :: nat
    by auto
  show ?thesis
    unfolding Uint64_def PutUint64_def
    apply simp
    apply (rule bit_eqI)
    apply (simp add: bit_simps *)
    apply (case_tac "bit v n")
     apply simp_all
    apply arith
    done
qed

lemma length_PutUint64: "length (PutUint64 v) = 8"
  by (simp add: PutUint64_def)

lemma length_hexSum: "length (hexSum v) = 16"
  by (simp add: hexSum_def length_PutUint64)

lemma exSum_hexSum: "exSum (x # hexSum v) = v"
  by (simp add: exSum_def hexSum_def length_PutUint64 Uint64_PutUint64)

lemma exDigestSumNode_additive:
  "exDigestSumNode l r = Inr (h, d) \<Longrightarrow> exSum h = exSum l + exSum r"
  by (auto simp: exDigestSumNode_def Let_def exSum_hexSum exDigest_def split: if_splits)

lemma PutUint64_not_Nil: "PutUint64 v \<noteq> []"
  by (simp add: PutUint64_def)

section \<open>Properties of the sanity checks\<close>

lemma sanityCheck_iff:
  "sanityCheck spec proof \<longleftrightarrow>
     length (SideNodes proof) \<le> PathSize spec * 8 \<and>
     (\<forall>v \<in> set (SideNodes proof). length v = hashSize spec + 16) \<and>
     (\<forall>d. NonMembershipLeafData proof = Some d \<longrightarrow>
        length leafPrefix + PathSize spec \<le> length d) \<and>
     (\<forall>sd. SiblingData proof = Some sd \<longrightarrow> SideNodes proof \<noteq> [] \<longrightarrow>
        hd (SideNodes proof) = hashSumSerialization spec sd)"
  by (cases "SideNodes proof") (auto simp: sanityCheck_def split: option.splits)

text \<open>
  C1, as the code has it. The sanity check rejects a proof exactly when its sidenode
  count exceeds the path bit-length, or some sidenode's byte length differs from
  \<open>hashSize + 16\<close>, or non-membership leaf data is present and shorter than the leaf
  prefix plus a path, or sibling data is present, there is a first sidenode and the
  sibling data does not hash to it. A rejected proof makes \<open>verifySumProofWithUpdates\<close>
  return false, no updates (nothing was folded) and \<open>ErrBadProof\<close>, whatever the
  root, key, value and sum are, and \<open>VerifySumProof\<close> return false and \<open>ErrBadProof\<close>.
\<close>

theorem sanityCheck_rejects:
  "(\<not> sanityCheck spec proof \<longleftrightarrow>
      length (SideNodes proof) > PathSize spec * 8 \<or>
      (\<exists>v \<in> set (SideNodes proof). length v \<noteq> hashSize spec + 16) \<or>
      (\<exists>d. NonMembershipLeafData proof = Some d \<and>
           length d < length leafPrefix + PathSize spec) \<or>
      (\<exists>sd. SiblingData proof = Some sd \<and> SideNodes proof \<noteq> [] \<and>
         hashSumSerialization spec sd \<noteq> hd (SideNodes proof))) \<and>
   (\<not> sanityCheck spec proof \<longrightarrow>
      verifySumProofWithUpdates spec proof root key value sumBytes
        = (False, [], Some ErrBadProof) \<and>
      VerifySumProof spec proof root key value sumArg = (False, Some ErrBadProof))"
proof -
  have "verifySumProofWithUpdates spec proof root key value s = (False, [], Some ErrBadProof)"
    if "\<not> sanityCheck spec proof" for s
    using that by (simp add: verifySumProofWithUpdates_def)
  then show ?thesis
    unfolding sanityCheck_iff by (auto simp: VerifySumProof_def not_le)
qed

theorem sanityCheck_rejects_witness:
  "\<not> sanityCheck exampleSpec
       \<lparr>SideNodes = [[1]], NonMembershipLeafData = None, SiblingData = None\<rparr> \<and>
   VerifySumProof exampleSpec
       \<lparr>SideNodes = [[1]], NonMembershipLeafData = None, SiblingData = None\<rparr> [2] [3] [4] 5
     = (False, Some ErrBadProof)"
  using sanityCheck_rejects [of exampleSpec
       "\<lparr>SideNodes = [[1]], NonMembershipLeafData = None, SiblingData = None\<rparr>"
       "[2]" "[3]" "[4]" "hexSum 5" 5]
  by (simp add: exampleSpec_def)

text \<open>
  C1, as the spec words it, fails: a single sidenode of \<open>hashSize + 8\<close> bytes meets
  none of the spec's four conditions, and the code rejects the proof.
\<close>

theorem sanityCheck_spec_counterexample:
  "\<not> sanityCheck exampleSpec
       \<lparr>SideNodes = [replicate 9 0], NonMembershipLeafData = None, SiblingData = None\<rparr> \<and>
   \<not> specRejects exampleSpec
       \<lparr>SideNodes = [replicate 9 0], NonMembershipLeafData = None, SiblingData = None\<rparr>"
  by (simp add: sanityCheck_def specRejects_def exampleSpec_def)

text \<open>
  C7, as the code has it. A compact proof passes its sanity check exactly when
  \<open>0 \<le> NumSideNodes \<le>\<close> path bit-length, the bitmask byte-length is
  \<open>ceil(NumSideNodes/8)\<close> and, if \<open>NumSideNodes\<close> is positive, the number of
  supplied sidenodes is \<open>NumSideNodes\<close> minus the number of set bits of the bitmask.
  \<open>DecompactSumProof\<close> returns \<open>ErrBadProof\<close> for every compact proof that fails the
  check.
\<close>

theorem compactSanityCheck_passes:
  "(compactSanityCheck spec proof \<longleftrightarrow>
      0 \<le> NumSideNodes proof \<and> NumSideNodes proof \<le> int (PathSize spec * 8) \<and>
      int (length (BitMask proof)) = ceilDiv8 (NumSideNodes proof) \<and>
      (NumSideNodes proof > 0 \<longrightarrow>
         int (length (cSideNodes proof))
           = NumSideNodes proof - int (countSetBits (BitMask proof)))) \<and>
   (\<not> compactSanityCheck spec proof \<longrightarrow> DecompactSumProof spec proof = Inl ErrBadProof)"
  by (auto simp: compactSanityCheck_def DecompactSumProof_def)

theorem compactSanityCheck_passes_witness:
  "\<not> compactSanityCheck exampleSpec
       \<lparr>cSideNodes = [], cNonMembershipLeafData = None, BitMask = [],
        NumSideNodes = 1, cSiblingData = None\<rparr> \<and>
   DecompactSumProof exampleSpec
       \<lparr>cSideNodes = [], cNonMembershipLeafData = None, BitMask = [],
        NumSideNodes = 1, cSiblingData = None\<rparr> = Inl ErrBadProof \<and>
   compactSanityCheck exampleSpec
       \<lparr>cSideNodes = [replicate 17 1], cNonMembershipLeafData = None, BitMask = [0],
        NumSideNodes = 1, cSiblingData = None\<rparr>"
  using compactSanityCheck_passes [of exampleSpec
       "\<lparr>cSideNodes = [], cNonMembershipLeafData = None, BitMask = [],
         NumSideNodes = 1, cSiblingData = None\<rparr>"]
    compactSanityCheck_passes [of exampleSpec
       "\<lparr>cSideNodes = [replicate 17 1], cNonMembershipLeafData = None, BitMask = [0],
        NumSideNodes = 1, cSiblingData = None\<rparr>"]
  by (simp add: exampleSpec_def ceilDiv8_def countSetBits_def getPathBit_def upt_rec)

text \<open>
  C7, as the spec words it, fails: with \<open>NumSideNodes = 0\<close> the code does not count
  the supplied sidenodes, so a compact proof that claims no sidenodes and supplies
  one passes the check.
\<close>

theorem compactSanityCheck_spec_counterexample:
  "compactSanityCheck exampleSpec
       \<lparr>cSideNodes = [[1]], cNonMembershipLeafData = None, BitMask = [],
        NumSideNodes = 0, cSiblingData = None\<rparr> \<and>
   \<not> specCompactSanity exampleSpec
       \<lparr>cSideNodes = [[1]], cNonMembershipLeafData = None, BitMask = [],
        NumSideNodes = 0, cSiblingData = None\<rparr>"
  by (simp add: compactSanityCheck_def specCompactSanity_def exampleSpec_def ceilDiv8_def
        countSetBits_def)

section \<open>Properties of verification\<close>

text \<open>
  C6. A non-membership claim (the value is the \<open>defaultValue\<close> sentinel) on a proof
  whose non-membership leaf data decodes to the path of the queried key fails as a bad
  proof: \<open>VerifySumProof\<close> returns false together with \<open>ErrBadProof\<close>.
\<close>

theorem nonMembership_occupied_path:
  assumes "value = defaultValue"
    and "NonMembershipLeafData proof = Some leafData"
    and "fst (parseSumLeaf spec leafData) = Path spec key"
  shows "VerifySumProof spec proof root key value sumArg = (False, Some ErrBadProof)"
  using assms
  by (auto simp: VerifySumProof_def verifySumProofWithUpdates_def leafHash_def Let_def
      split: prod.splits)

theorem nonMembership_occupied_path_witness:
  "VerifySumProof exampleSpec
     \<lparr>SideNodes = [], NonMembershipLeafData = Some ([0, 7, 3] @ hexSum 5), SiblingData = None\<rparr>
     (replicate 17 0) [7, 7] defaultValue 0 = (False, Some ErrBadProof)"
  by (rule nonMembership_occupied_path [where leafData = "[0, 7, 3] @ hexSum 5"])
     (simp_all add: exampleSpec_def copyBytes_def)

lemma emptyProof_sanityCheck:
  "sanityCheck spec \<lparr>SideNodes = [], NonMembershipLeafData = None, SiblingData = None\<rparr>"
  by (simp add: sanityCheck_def)

lemma VerifySumProof_emptyProof_default:
  "VerifySumProof spec \<lparr>SideNodes = [], NonMembershipLeafData = None, SiblingData = None\<rparr>
     (sumPlaceholder spec) key defaultValue sumArg = (True, None)"
  by (simp add: VerifySumProof_def verifySumProofWithUpdates_def leafHash_def recomputeRoot_def
      recomputeLoop.simps emptyProof_sanityCheck)

text \<open>
  C4, at the point where the code departs from it. In the non-membership branch the
  claimed sum is never read: a non-membership claim has the same outcome for every
  claimed sum. The proof of an absent key on the empty tree (no sidenodes, no leaf
  data) checked against the empty root with the claimed sum 5 is accepted.
\<close>

theorem nonMembership_ignores_sum:
  "VerifySumProof spec proof root key defaultValue sumArg
     = VerifySumProof spec proof root key defaultValue 0 \<and>
   VerifySumProof spec \<lparr>SideNodes = [], NonMembershipLeafData = None, SiblingData = None\<rparr>
     (sumPlaceholder spec) key defaultValue 5 = (True, None)"
  by (simp add: VerifySumProof_emptyProof_default)
     (simp add: VerifySumProof_def verifySumProofWithUpdates_def leafHash_def Let_def)

section \<open>Properties of compaction\<close>

lemma getPathBit_replicate:
  "getPathBit (replicate m 0) j = (if j div 8 < m then Some 0 else None)"
  by (simp add: getPathBit_def)

lemma setPathBit_in_range:
  "i div 8 < length data \<Longrightarrow> \<exists>data'. setPathBit data i = Some data'"
  by (simp add: setPathBit_def)

lemma setPathBit_length:
  "setPathBit data i = Some data' \<Longrightarrow> length data' = length data"
  by (auto simp: setPathBit_def split: if_splits)

lemma position_eq_iff:
  assumes "j div 8 = i div 8"
  shows "(7 - i mod 8 = 7 - j mod 8) = (i = (j::nat))"
proof -
  have "i mod 8 < 8" "j mod 8 < 8" by simp_all
  then have "(7 - i mod 8 = 7 - j mod 8) = (i mod 8 = j mod 8)" by linarith
  also have "\<dots> = (i = j)"
    using assms by (metis div_mult_mod_eq)
  finally show ?thesis .
qed

lemma getPathBit_setPathBit:
  assumes "setPathBit data i = Some data'"
  shows "getPathBit data' j = (if j = i then Some 1 else getPathBit data j)"
proof -
  from assms have i: "i div 8 < length data"
    and data': "data' = data[i div 8 := set_bit (7 - i mod 8) (data ! (i div 8))]"
    by (auto simp: setPathBit_def split: if_splits)
  show ?thesis
  proof (cases "j div 8 = i div 8")
    case True
    have "7 - j mod 8 < 8" by simp
    with True show ?thesis
      using i position_eq_iff [OF True]
      by (auto simp add: getPathBit_def data' bit_set_bit_iff)
  next
    case False
    then have "j \<noteq> i" by auto
    with False show ?thesis
      by (simp add: getPathBit_def data')
  qed
qed

lemma compactLoop_result:
  assumes len: "\<forall>v \<in> set sideNodes. length v = hashSize spec + 16"
    and "length sideNodes \<le> 8 * length bitMask"
  shows "\<exists>bitMask'.
           compactLoop spec sideNodes i bitMask acc
             = Inr (bitMask', acc @ filter (\<lambda>v. v \<noteq> sumPlaceholder spec) (drop i sideNodes)) \<and>
           length bitMask' = length bitMask \<and>
           (\<forall>j. getPathBit bitMask' j
                  = (if i \<le> j \<and> j < length sideNodes \<and> sideNodes ! j = sumPlaceholder spec
                     then Some 1 else getPathBit bitMask j))"
  using assms(2)
proof (induction "length sideNodes - i" arbitrary: i bitMask acc)
  case 0
  then show ?case
    by (auto simp add: compactLoop.simps)
next
  case (Suc k)
  then have i: "i < length sideNodes" and k: "k = length sideNodes - (i + 1)"
    by simp_all
  from i len have node: "copyBytes (hashSize spec + 16) (sideNodes ! i) = sideNodes ! i"
    by (simp add: copyBytes_same_length)
  have drop: "drop i sideNodes = sideNodes ! i # drop (i + 1) sideNodes"
    using i by (simp add: Cons_nth_drop_Suc)
  show ?case
  proof (cases "sideNodes ! i = sumPlaceholder spec")
    case True
    from i Suc.prems have "i div 8 < length bitMask" by simp
    then obtain m1 where m1: "setPathBit bitMask i = Some m1"
      using setPathBit_in_range by blast
    then have lm1: "length m1 = length bitMask"
      by (rule setPathBit_length)
    with Suc.prems have "length sideNodes \<le> 8 * length m1" by simp
    from Suc.hyps(1) [OF k this, of acc] obtain bitMask' where
      res: "compactLoop spec sideNodes (i + 1) m1 acc
             = Inr (bitMask', acc @ filter (\<lambda>v. v \<noteq> sumPlaceholder spec) (drop (i + 1) sideNodes))"
      and l: "length bitMask' = length m1"
      and bits: "\<And>j. getPathBit bitMask' j
                  = (if i + 1 \<le> j \<and> j < length sideNodes \<and> sideNodes ! j = sumPlaceholder spec
                     then Some 1 else getPathBit m1 j)"
      by blast
    have "compactLoop spec sideNodes i bitMask acc
            = compactLoop spec sideNodes (i + 1) m1 acc"
      using i True m1 node by (subst compactLoop.simps) simp
    moreover have "getPathBit bitMask' j
                  = (if i \<le> j \<and> j < length sideNodes \<and> sideNodes ! j = sumPlaceholder spec
                     then Some 1 else getPathBit bitMask j)" for j
      using i True by (cases "j = i") (auto simp: bits getPathBit_setPathBit [OF m1])
    ultimately show ?thesis
      using res l lm1 True by (simp add: drop)
  next
    case False
    from Suc.hyps(1) [OF k Suc.prems, of "acc @ [sideNodes ! i]"] obtain bitMask' where
      res: "compactLoop spec sideNodes (i + 1) bitMask (acc @ [sideNodes ! i])
             = Inr (bitMask', (acc @ [sideNodes ! i]) @
                      filter (\<lambda>v. v \<noteq> sumPlaceholder spec) (drop (i + 1) sideNodes))"
      and l: "length bitMask' = length bitMask"
      and bits: "\<And>j. getPathBit bitMask' j
                  = (if i + 1 \<le> j \<and> j < length sideNodes \<and> sideNodes ! j = sumPlaceholder spec
                     then Some 1 else getPathBit bitMask j)"
      by blast
    have "compactLoop spec sideNodes i bitMask acc
            = compactLoop spec sideNodes (i + 1) bitMask (acc @ [sideNodes ! i])"
      using i False node by (subst compactLoop.simps) simp
    moreover have "getPathBit bitMask' j
                  = (if i \<le> j \<and> j < length sideNodes \<and> sideNodes ! j = sumPlaceholder spec
                     then Some 1 else getPathBit bitMask j)" for j
      using i False by (cases "j = i") (auto simp: bits)
    ultimately show ?thesis
      using res l False by (simp add: drop)
  qed
qed

lemma length_filter_upt_bounded:
  "n \<le> k \<Longrightarrow> length (filter (\<lambda>j. j < n \<and> P j) [0..<k]) = length (filter P [0..<n])"
proof -
  assume "n \<le> k"
  then have "[0..<k] = [0..<n] @ [n..<k]"
    by (metis le_add_diff_inverse upt_add_eq_append zero_le)
  moreover have "filter (\<lambda>j. j < n \<and> P j) [n..<k] = []"
    by (simp add: filter_empty_conv)
  moreover have "filter (\<lambda>j. j < n \<and> P j) [0..<n] = filter P [0..<n]"
    by (rule filter_cong) auto
  ultimately show ?thesis by simp
qed

lemma length_filter_nth:
  "length (filter (\<lambda>j. P (xs ! j)) [0..<length xs]) = length (filter P xs)"
proof (induction xs rule: rev_induct)
  case Nil
  then show ?case by simp
next
  case (snoc x xs)
  have "filter (\<lambda>j. P ((xs @ [x]) ! j)) [0..<length xs] = filter (\<lambda>j. P (xs ! j)) [0..<length xs]"
    by (rule filter_cong) (auto simp: nth_append)
  with snoc show ?case by simp
qed

lemma countSetBits_characterised:
  assumes bits: "\<And>j. getPathBit bitMask j
                  = (if j < length sideNodes \<and> P (sideNodes ! j) then Some 1
                     else if j div 8 < length bitMask then Some 0 else None)"
    and "length sideNodes \<le> length bitMask * 8"
  shows "countSetBits bitMask = length (filter P sideNodes)"
proof -
  have "countSetBits bitMask
          = length (filter (\<lambda>j. j < length sideNodes \<and> P (sideNodes ! j)) [0..<length bitMask * 8])"
    unfolding countSetBits_def by (rule arg_cong [where f = length], rule filter_cong) (auto simp: bits)
  also have "\<dots> = length (filter (\<lambda>j. P (sideNodes ! j)) [0..<length sideNodes])"
    using assms(2) by (rule length_filter_upt_bounded)
  also have "\<dots> = length (filter P sideNodes)"
    by (rule length_filter_nth)
  finally show ?thesis .
qed

lemma decompactLoop_result:
  assumes num: "NumSideNodes proof = int (length sideNodes)"
    and bits: "\<And>j. j < length sideNodes \<Longrightarrow>
                 getPathBit (BitMask proof) j
                   = Some (if sideNodes ! j = sumPlaceholder spec then 1 else 0)"
    and kept: "cSideNodes proof = filter (\<lambda>v. v \<noteq> sumPlaceholder spec) sideNodes"
    and "position = length (filter (\<lambda>v. v \<noteq> sumPlaceholder spec) (take i sideNodes))"
    and "length out = length sideNodes"
  shows "decompactLoop spec proof i position out = Inr (take i out @ drop i sideNodes)"
  using assms(4,5)
proof (induction "length sideNodes - i" arbitrary: i position out)
  case 0
  then show ?case
    by (simp add: decompactLoop.simps num)
next
  case (Suc k)
  then have i: "i < length sideNodes" and k: "k = length sideNodes - (i + 1)"
    by simp_all
  have drop: "drop i sideNodes = sideNodes ! i # drop (Suc i) sideNodes"
    using i by (simp add: Cons_nth_drop_Suc)
  have take: "take (Suc i) sideNodes = take i sideNodes @ [sideNodes ! i]"
    using i by (simp add: take_Suc_conv_app_nth)
  have out: "take (Suc i) (out[i := v]) = take i out @ [v]" for v
    using i Suc.prems(2) by (simp add: take_Suc_conv_app_nth)
  show ?case
  proof (cases "sideNodes ! i = sumPlaceholder spec")
    case True
    have "decompactLoop spec proof i position out
            = decompactLoop spec proof (i + 1) position (out[i := sumPlaceholder spec])"
      using i True bits [OF i] by (subst decompactLoop.simps) (simp add: num)
    also have "\<dots> = Inr (take (i + 1) (out[i := sumPlaceholder spec]) @ drop (i + 1) sideNodes)"
      using Suc.prems True by (intro Suc.hyps(1) [OF k]) (simp_all add: take)
    finally show ?thesis
      using True by (simp add: out drop)
  next
    case False
    have split: "filter (\<lambda>v. v \<noteq> sumPlaceholder spec) sideNodes
            = filter (\<lambda>v. v \<noteq> sumPlaceholder spec) (take i sideNodes) @
              sideNodes ! i # filter (\<lambda>v. v \<noteq> sumPlaceholder spec) (drop (i + 1) sideNodes)"
      using False by (subst append_take_drop_id [of i sideNodes, symmetric], subst filter_append)
                     (simp add: drop)
    have pos: "position < length (cSideNodes proof)" "cSideNodes proof ! position = sideNodes ! i"
      unfolding kept split using Suc.prems(1) by (simp_all add: nth_append)
    have "decompactLoop spec proof i position out
            = decompactLoop spec proof (i + 1) (position + 1) (out[i := sideNodes ! i])"
      using i False bits [OF i] pos by (subst decompactLoop.simps) (simp add: num)
    also have "\<dots> = Inr (take (i + 1) (out[i := sideNodes ! i]) @ drop (i + 1) sideNodes)"
      using Suc.prems False by (intro Suc.hyps(1) [OF k]) (simp_all add: take)
    finally show ?thesis
      by (simp add: out drop)
  qed
qed

lemma CompactSumProof_result:
  assumes "sanityCheck spec proof"
  shows "\<exists>bitMask.
           CompactSumProof spec proof
             = Inr \<lparr> cSideNodes = filter (\<lambda>v. v \<noteq> sumPlaceholder spec) (SideNodes proof),
                     cNonMembershipLeafData = NonMembershipLeafData proof,
                     BitMask = bitMask,
                     NumSideNodes = int (length (SideNodes proof)),
                     cSiblingData = SiblingData proof \<rparr> \<and>
           length bitMask = nat (ceilDiv8 (int (length (SideNodes proof)))) \<and>
           (\<forall>j. getPathBit bitMask j
                  = (if j < length (SideNodes proof) \<and> SideNodes proof ! j = sumPlaceholder spec
                     then Some 1
                     else if j div 8 < length bitMask then Some 0 else None))"
proof -
  let ?n = "length (SideNodes proof)"
  let ?mask = "replicate (nat (ceilDiv8 (int ?n))) (0::byte)"
  from assms have len: "\<forall>v \<in> set (SideNodes proof). length v = hashSize spec + 16"
    by (simp add: sanityCheck_iff)
  have "?n \<le> 8 * length ?mask"
    using ceilDiv8_nat(1) [of ?n] by simp
  from compactLoop_result [OF len this, of 0 "[]"] obtain bitMask' where
    res: "compactLoop spec (SideNodes proof) 0 ?mask []
            = Inr (bitMask', filter (\<lambda>v. v \<noteq> sumPlaceholder spec) (SideNodes proof))"
    and l: "length bitMask' = length ?mask"
    and bits: "\<And>j. getPathBit bitMask' j
                  = (if j < ?n \<and> SideNodes proof ! j = sumPlaceholder spec
                     then Some 1 else getPathBit ?mask j)"
    by auto
  show ?thesis
    using assms res l by (intro exI [of _ bitMask']) (simp add: CompactSumProof_def bits getPathBit_replicate)
qed

lemma compacted_sanityCheck:
  assumes "sanityCheck spec proof"
    and "length bitMask = nat (ceilDiv8 (int (length (SideNodes proof))))"
    and bits: "\<And>j. getPathBit bitMask j
                  = (if j < length (SideNodes proof) \<and> SideNodes proof ! j = sumPlaceholder spec
                     then Some 1
                     else if j div 8 < length bitMask then Some 0 else None)"
  shows "int (length (filter (\<lambda>v. v \<noteq> sumPlaceholder spec) (SideNodes proof)))
           = int (length (SideNodes proof)) - int (countSetBits bitMask)"
    and "compactSanityCheck spec
           \<lparr> cSideNodes = filter (\<lambda>v. v \<noteq> sumPlaceholder spec) (SideNodes proof),
             cNonMembershipLeafData = nm, BitMask = bitMask,
             NumSideNodes = int (length (SideNodes proof)), cSiblingData = sd \<rparr>"
proof -
  let ?n = "length (SideNodes proof)"
  have "?n \<le> length bitMask * 8"
    using ceilDiv8_nat(1) [of ?n] assms(2) by simp
  with bits have "countSetBits bitMask
      = length (filter (\<lambda>v. v = sumPlaceholder spec) (SideNodes proof))"
    by (rule countSetBits_characterised)
  moreover have "length (filter (\<lambda>v. v = sumPlaceholder spec) (SideNodes proof)) +
      length (filter (\<lambda>v. v \<noteq> sumPlaceholder spec) (SideNodes proof)) = ?n"
    by (rule sum_length_filter_compl)
  ultimately show count: "int (length (filter (\<lambda>v. v \<noteq> sumPlaceholder spec) (SideNodes proof)))
           = int ?n - int (countSetBits bitMask)"
    by linarith
  from assms(1) have "?n \<le> PathSize spec * 8"
    by (simp add: sanityCheck_iff)
  then show "compactSanityCheck spec
           \<lparr> cSideNodes = filter (\<lambda>v. v \<noteq> sumPlaceholder spec) (SideNodes proof),
             cNonMembershipLeafData = nm, BitMask = bitMask,
             NumSideNodes = int ?n, cSiblingData = sd \<rparr>"
    using count assms(2) ceilDiv8_nat(2) [of ?n]
    by (simp add: compactSanityCheck_def)
qed

lemma Decompact_compacted:
  assumes "sanityCheck spec proof"
    and "length bitMask = nat (ceilDiv8 (int (length (SideNodes proof))))"
    and bits: "\<And>j. getPathBit bitMask j
                  = (if j < length (SideNodes proof) \<and> SideNodes proof ! j = sumPlaceholder spec
                     then Some 1
                     else if j div 8 < length bitMask then Some 0 else None)"
  shows "DecompactSumProof spec
           \<lparr> cSideNodes = filter (\<lambda>v. v \<noteq> sumPlaceholder spec) (SideNodes proof),
             cNonMembershipLeafData = NonMembershipLeafData proof, BitMask = bitMask,
             NumSideNodes = int (length (SideNodes proof)),
             cSiblingData = SiblingData proof \<rparr> = Inr proof"
proof -
  let ?n = "length (SideNodes proof)"
  let ?c = "\<lparr> cSideNodes = filter (\<lambda>v. v \<noteq> sumPlaceholder spec) (SideNodes proof),
             cNonMembershipLeafData = NonMembershipLeafData proof, BitMask = bitMask,
             NumSideNodes = int ?n, cSiblingData = SiblingData proof \<rparr>"
  have sane: "compactSanityCheck spec ?c"
    using assms by (rule compacted_sanityCheck(2))
  have inrange: "j div 8 < length bitMask" if "j < ?n" for j
    using that ceilDiv8_nat(1) [of ?n] assms(2) by simp
  have "decompactLoop spec ?c 0 0 (replicate (nat (NumSideNodes ?c)) [])
          = Inr (take 0 (replicate (nat (NumSideNodes ?c)) []) @ drop 0 (SideNodes proof))"
    by (rule decompactLoop_result [where sideNodes = "SideNodes proof"])
       (simp_all add: bits inrange)
  with sane show ?thesis
    by (simp add: DecompactSumProof_def)
qed

text \<open>
  C10. A proof that passes its sanity check is compacted without error, and the
  compact proof passes the compact-proof sanity check: its \<open>NumSideNodes\<close> is the
  sidenode count of the proof, its bitmask has \<open>ceil(NumSideNodes/8)\<close> bytes, its
  surviving sidenodes number \<open>NumSideNodes\<close> minus the set bits of the bitmask, and
  \<open>DecompactSumProof\<close> applied to it returns a proof (no error, no panic).
\<close>

theorem compacted_proof_sane:
  assumes "sanityCheck spec proof"
  shows "\<exists>compact.
           CompactSumProof spec proof = Inr compact \<and>
           compactSanityCheck spec compact \<and>
           NumSideNodes compact = int (length (SideNodes proof)) \<and>
           int (length (BitMask compact)) = ceilDiv8 (NumSideNodes compact) \<and>
           int (length (cSideNodes compact))
             = NumSideNodes compact - int (countSetBits (BitMask compact)) \<and>
           (\<exists>decompacted. DecompactSumProof spec compact = Inr decompacted)"
proof -
  from CompactSumProof_result [OF assms] obtain bitMask where
    c: "CompactSumProof spec proof
          = Inr \<lparr> cSideNodes = filter (\<lambda>v. v \<noteq> sumPlaceholder spec) (SideNodes proof),
                  cNonMembershipLeafData = NonMembershipLeafData proof,
                  BitMask = bitMask,
                  NumSideNodes = int (length (SideNodes proof)),
                  cSiblingData = SiblingData proof \<rparr>"
    and l: "length bitMask = nat (ceilDiv8 (int (length (SideNodes proof))))"
    and bits: "\<And>j. getPathBit bitMask j
                  = (if j < length (SideNodes proof) \<and> SideNodes proof ! j = sumPlaceholder spec
                     then Some 1
                     else if j div 8 < length bitMask then Some 0 else None)"
    by blast
  show ?thesis
    using c l compacted_sanityCheck [OF assms l bits] Decompact_compacted [OF assms l bits]
      ceilDiv8_nat(2) [of "length (SideNodes proof)"]
    by simp
qed

theorem compacted_proof_sane_witness:
  "sanityCheck exampleSpec
     \<lparr>SideNodes = [replicate 17 1, replicate 17 0],
      NonMembershipLeafData = None, SiblingData = None\<rparr> \<and>
   CompactSumProof exampleSpec
     \<lparr>SideNodes = [replicate 17 1, replicate 17 0],
      NonMembershipLeafData = None, SiblingData = None\<rparr>
   = Inr \<lparr>cSideNodes = [replicate 17 1], cNonMembershipLeafData = None, BitMask = [64],
          NumSideNodes = 2, cSiblingData = None\<rparr> \<and>
   compactSanityCheck exampleSpec
     \<lparr>cSideNodes = [replicate 17 1], cNonMembershipLeafData = None, BitMask = [64],
      NumSideNodes = 2, cSiblingData = None\<rparr> \<and>
   (\<exists>decompacted.
      DecompactSumProof exampleSpec
        \<lparr>cSideNodes = [replicate 17 1], cNonMembershipLeafData = None, BitMask = [64],
         NumSideNodes = 2, cSiblingData = None\<rparr> = Inr decompacted)"
proof -
  let ?p = "\<lparr>SideNodes = [replicate 17 1, replicate 17 0],
      NonMembershipLeafData = None, SiblingData = None\<rparr>"
  have s: "sanityCheck exampleSpec ?p"
    by (simp add: sanityCheck_def exampleSpec_def)
  have c: "CompactSumProof exampleSpec ?p
     = Inr \<lparr>cSideNodes = [replicate 17 1], cNonMembershipLeafData = None, BitMask = [64],
          NumSideNodes = 2, cSiblingData = None\<rparr>"
    by code_simp
  from compacted_proof_sane [OF s] s c show ?thesis
    by auto
qed

text \<open>
  C3. For every proof that passes its sanity check, compaction returns a compact
  proof without error, and decompacting that compact proof returns, without error
  and without panic, a proof equal to the original in every field: the same sidenodes
  in the same order, the same non-membership leaf data, the same sibling data.
\<close>

theorem decompact_compact_roundtrip:
  assumes "sanityCheck spec proof"
  shows "\<exists>compact.
           CompactSumProof spec proof = Inr compact \<and>
           DecompactSumProof spec compact = Inr proof"
proof -
  from CompactSumProof_result [OF assms] obtain bitMask where
    c: "CompactSumProof spec proof
          = Inr \<lparr> cSideNodes = filter (\<lambda>v. v \<noteq> sumPlaceholder spec) (SideNodes proof),
                  cNonMembershipLeafData = NonMembershipLeafData proof,
                  BitMask = bitMask,
                  NumSideNodes = int (length (SideNodes proof)),
                  cSiblingData = SiblingData proof \<rparr>"
    and l: "length bitMask = nat (ceilDiv8 (int (length (SideNodes proof))))"
    and bits: "\<And>j. getPathBit bitMask j
                  = (if j < length (SideNodes proof) \<and> SideNodes proof ! j = sumPlaceholder spec
                     then Some 1
                     else if j div 8 < length bitMask then Some 0 else None)"
    by blast
  show ?thesis
    using c Decompact_compacted [OF assms l bits] by simp
qed

theorem decompact_compact_roundtrip_witness:
  "sanityCheck exampleSpec
     \<lparr>SideNodes = [replicate 17 0, replicate 17 1, replicate 17 0],
      NonMembershipLeafData = None, SiblingData = None\<rparr> \<and>
   CompactSumProof exampleSpec
     \<lparr>SideNodes = [replicate 17 0, replicate 17 1, replicate 17 0],
      NonMembershipLeafData = None, SiblingData = None\<rparr>
   = Inr \<lparr>cSideNodes = [replicate 17 1], cNonMembershipLeafData = None, BitMask = [160],
          NumSideNodes = 3, cSiblingData = None\<rparr> \<and>
   DecompactSumProof exampleSpec
     \<lparr>cSideNodes = [replicate 17 1], cNonMembershipLeafData = None, BitMask = [160],
      NumSideNodes = 3, cSiblingData = None\<rparr>
   = Inr \<lparr>SideNodes = [replicate 17 0, replicate 17 1, replicate 17 0],
      NonMembershipLeafData = None, SiblingData = None\<rparr>"
proof -
  let ?p = "\<lparr>SideNodes = [replicate 17 0, replicate 17 1, replicate 17 0],
      NonMembershipLeafData = None, SiblingData = None\<rparr>"
  have s: "sanityCheck exampleSpec ?p"
    by (simp add: sanityCheck_def exampleSpec_def)
  have c: "CompactSumProof exampleSpec ?p
     = Inr \<lparr>cSideNodes = [replicate 17 1], cNonMembershipLeafData = None, BitMask = [160],
          NumSideNodes = 3, cSiblingData = None\<rparr>"
    by code_simp
  from decompact_compact_roundtrip [OF s] s c show ?thesis
    by auto
qed

section \<open>Properties of the fold over the sidenodes\<close>

lemma recomputeLoop_fold:
  assumes len: "\<forall>v \<in> set sideNodes. length v = hashSize spec + 16"
  shows "map_sum (\<lambda>err. err) fst (recomputeLoop spec sideNodes path i currentHash updates)
           = foldSideNodes spec path (length sideNodes) (drop i sideNodes) i currentHash"
proof (induction "length sideNodes - i" arbitrary: i currentHash updates)
  case 0
  then show ?case
    by (simp add: recomputeLoop.simps)
next
  case (Suc k)
  then have i: "i < length sideNodes" and k: "k = length sideNodes - (i + 1)"
    by simp_all
  from i len have node: "copyBytes (hashSize spec + 16) (sideNodes ! i) = sideNodes ! i"
    by (simp add: copyBytes_same_length)
  have drop: "drop i sideNodes = sideNodes ! i # drop (Suc i) sideNodes"
    using i by (simp add: Cons_nth_drop_Suc)
  show ?case
    using i Suc.hyps(1) [OF k]
    by (subst recomputeLoop.simps)
       (auto simp: node drop left_def split: option.splits sum.splits)
qed

lemma recomputeLoop_step:
  assumes "i < length sideNodes"
    and "length (sideNodes ! i) = hashSize spec + 16"
    and "getPathBit path (length sideNodes - 1 - i) = Some b"
  shows "recomputeLoop spec sideNodes path i currentHash updates
           = (case (if b = 0 then digestSumNode spec currentHash (sideNodes ! i)
                    else digestSumNode spec (sideNodes ! i) currentHash) of
                Inl err \<Rightarrow> Inl err
              | Inr (h, d) \<Rightarrow> recomputeLoop spec sideNodes path (i + 1) h (updates @ [(h, d)]))"
  using assms
  by (subst recomputeLoop.simps) (simp add: copyBytes_same_length left_def)

lemma foldSideNodes_sum:
  fixes sumOf :: "bytes \<Rightarrow> 'a::comm_monoid_add"
  assumes add: "\<And>l r h d. digestSumNode spec l r = Inr (h, d) \<Longrightarrow> sumOf h = sumOf l + sumOf r"
    and "foldSideNodes spec path n sideNodes i acc = Inr h"
  shows "sumOf h = sumOf acc + sum_list (map sumOf sideNodes)"
  using assms(2)
proof (induction sideNodes arbitrary: i acc)
  case Nil
  then show ?case by simp
next
  case (Cons sideNode rest)
  then show ?case
    by (auto simp: add ac_simps split: option.splits sum.splits if_splits dest!: Cons.IH)
qed

text \<open>
  C5. In the loop of a proof that passed the sanity check, at sidenode index \<open>i\<close>
  (leaf first) the path bit at position \<open>numSideNodes - 1 - i\<close> selects the
  orientation: with bit 0 the accumulated node is the left argument of
  \<open>digestSumNode\<close> and the sidenode the right one, with bit 1 the reverse. The
  loop computes the fold of the spec. Whenever \<open>digestSumNode\<close> carries the sum
  of its two arguments (for any reading \<open>sumOf\<close> of the sum of an encoding), the
  sum of the recomputed root is the sum of the leaf plus the sums of all sidenodes.
\<close>

theorem fold_orientation:
  fixes sumOf :: "bytes \<Rightarrow> 'a::comm_monoid_add"
  assumes "sanityCheck spec proof"
  shows
    "(\<forall>i b currentHash updates.
        i < length (SideNodes proof) \<longrightarrow>
        getPathBit path (length (SideNodes proof) - 1 - i) = Some b \<longrightarrow>
        recomputeLoop spec (SideNodes proof) path i currentHash updates
          = (case (if b = 0 then digestSumNode spec currentHash (SideNodes proof ! i)
                   else digestSumNode spec (SideNodes proof ! i) currentHash) of
               Inl err \<Rightarrow> Inl err
             | Inr (h, d) \<Rightarrow>
                 recomputeLoop spec (SideNodes proof) path (i + 1) h (updates @ [(h, d)]))) \<and>
     map_sum (\<lambda>err. err) fst (recomputeLoop spec (SideNodes proof) path 0 leaf updates0)
       = foldSideNodes spec path (length (SideNodes proof)) (SideNodes proof) 0 leaf \<and>
     ((\<forall>l r h d. digestSumNode spec l r = Inr (h, d) \<longrightarrow> sumOf h = sumOf l + sumOf r) \<longrightarrow>
      (\<forall>h updates'.
         recomputeLoop spec (SideNodes proof) path 0 leaf updates0 = Inr (h, updates') \<longrightarrow>
         sumOf h = sumOf leaf + sum_list (map sumOf (SideNodes proof))))"
proof -
  from assms have len: "\<forall>v \<in> set (SideNodes proof). length v = hashSize spec + 16"
    by (simp add: sanityCheck_iff)
  have fold: "map_sum (\<lambda>err. err) fst (recomputeLoop spec (SideNodes proof) path 0 leaf updates0)
       = foldSideNodes spec path (length (SideNodes proof)) (SideNodes proof) 0 leaf"
    using recomputeLoop_fold [OF len, of path 0 leaf updates0] by simp
  have step: "recomputeLoop spec (SideNodes proof) path i currentHash updates
          = (case (if b = 0 then digestSumNode spec currentHash (SideNodes proof ! i)
                   else digestSumNode spec (SideNodes proof ! i) currentHash) of
               Inl err \<Rightarrow> Inl err
             | Inr (h, d) \<Rightarrow>
                 recomputeLoop spec (SideNodes proof) path (i + 1) h (updates @ [(h, d)]))"
    if "i < length (SideNodes proof)"
      and "getPathBit path (length (SideNodes proof) - 1 - i) = Some b"
    for i b currentHash updates
    using that len by (intro recomputeLoop_step) simp_all
  have total: "sumOf h = sumOf leaf + sum_list (map sumOf (SideNodes proof))"
    if add: "\<forall>l r h d. digestSumNode spec l r = Inr (h, d) \<longrightarrow> sumOf h = sumOf l + sumOf r"
      and res: "recomputeLoop spec (SideNodes proof) path 0 leaf updates0 = Inr (h, updates')"
    for h updates'
  proof -
    from fold res have "foldSideNodes spec path (length (SideNodes proof)) (SideNodes proof) 0 leaf
                          = Inr h"
      by simp
    with add show ?thesis
      by (intro foldSideNodes_sum [where spec = spec]) blast+
  qed
  from fold step total show ?thesis
    by blast
qed

theorem fold_orientation_witness:
  "sanityCheck exampleSpec
     \<lparr>SideNodes = [9 # hexSum 3, 14 # hexSum 2], NonMembershipLeafData = None,
      SiblingData = None\<rparr> \<and>
   getPathBit [128] 1 = Some 0 \<and> getPathBit [128] 0 = Some 1 \<and>
   recomputeLoop exampleSpec [9 # hexSum 3, 14 # hexSum 2] [128] 0 (140 # hexSum 5) []
     = (case exDigestSumNode (140 # hexSum 5) (9 # hexSum 3) of
          Inl err \<Rightarrow> Inl err
        | Inr (h, d) \<Rightarrow>
            recomputeLoop exampleSpec [9 # hexSum 3, 14 # hexSum 2] [128] (0 + 1) h ([] @ [(h, d)])) \<and>
   recomputeLoop exampleSpec [9 # hexSum 3, 14 # hexSum 2] [128] 1 (158 # hexSum 8) []
     = (case exDigestSumNode (14 # hexSum 2) (158 # hexSum 8) of
          Inl err \<Rightarrow> Inl err
        | Inr (h, d) \<Rightarrow>
            recomputeLoop exampleSpec [9 # hexSum 3, 14 # hexSum 2] [128] (1 + 1) h ([] @ [(h, d)])) \<and>
   foldSideNodes exampleSpec [128] 2 [9 # hexSum 3, 14 # hexSum 2] 0 (140 # hexSum 5)
     = Inr (183 # hexSum 10) \<and>
   exSum (183 # hexSum 10) = exSum (140 # hexSum 5) + exSum (9 # hexSum 3) + exSum (14 # hexSum 2)"
proof -
  let ?p = "\<lparr>SideNodes = [9 # hexSum 3, 14 # hexSum 2], NonMembershipLeafData = None,
      SiblingData = None\<rparr>"
  have s: "sanityCheck exampleSpec ?p"
    by (simp add: sanityCheck_def exampleSpec_def length_hexSum)
  have b: "getPathBit [128] 1 = Some 0" "getPathBit [128] 0 = Some 1"
    by (simp_all add: getPathBit_def)
  have add: "\<forall>l r h d. digestSumNode exampleSpec l r = Inr (h, d) \<longrightarrow> exSum h = exSum l + exSum r"
    by (simp add: exampleSpec_def exDigestSumNode_additive)
  have r: "map_sum (\<lambda>err. err) fst
             (recomputeLoop exampleSpec (SideNodes ?p) [128] 0 (140 # hexSum 5) [])
            = Inr (183 # hexSum 10)"
    by code_simp
  have dsn: "digestSumNode exampleSpec = exDigestSumNode"
    by (simp add: exampleSpec_def)
  note t = fold_orientation [OF s, of "[128]" "140 # hexSum 5" "[]" exSum]
  note step = t [THEN conjunct1, rule_format]
  have "recomputeLoop exampleSpec [9 # hexSum 3, 14 # hexSum 2] [128] 0 (140 # hexSum 5) []
     = (case exDigestSumNode (140 # hexSum 5) (9 # hexSum 3) of
          Inl err \<Rightarrow> Inl err
        | Inr (h, d) \<Rightarrow>
            recomputeLoop exampleSpec [9 # hexSum 3, 14 # hexSum 2] [128] (0 + 1) h ([] @ [(h, d)]))"
    using step [of 0 0 "140 # hexSum 5" "[]"] b by (simp add: dsn split: sum.splits)
  moreover have "recomputeLoop exampleSpec [9 # hexSum 3, 14 # hexSum 2] [128] 1 (158 # hexSum 8) []
     = (case exDigestSumNode (14 # hexSum 2) (158 # hexSum 8) of
          Inl err \<Rightarrow> Inl err
        | Inr (h, d) \<Rightarrow>
            recomputeLoop exampleSpec [9 # hexSum 3, 14 # hexSum 2] [128] (1 + 1) h ([] @ [(h, d)]))"
    using step [of 1 1 "158 # hexSum 8" "[]"] b by (simp add: dsn split: sum.splits)
  moreover have "foldSideNodes exampleSpec [128] 2 [9 # hexSum 3, 14 # hexSum 2] 0 (140 # hexSum 5)
     = Inr (183 # hexSum 10)"
    using t [THEN conjunct2, THEN conjunct1] r by (simp add: numeral_2_eq_2)
  moreover have "exSum (183 # hexSum 10)
      = exSum (140 # hexSum 5) + exSum (9 # hexSum 3) + exSum (14 # hexSum 2)"
  proof -
    from r obtain u where
      "recomputeLoop exampleSpec (SideNodes ?p) [128] 0 (140 # hexSum 5) [] = Inr (183 # hexSum 10, u)"
      by (cases "recomputeLoop exampleSpec (SideNodes ?p) [128] 0 (140 # hexSum 5) []") auto
    from t [THEN conjunct2, THEN conjunct2, rule_format, OF add [rule_format] this]
    show ?thesis
      by (simp add: add.assoc)
  qed
  ultimately show ?thesis
    using s b by simp
qed

lemma VerifySumProof_fold:
  assumes "sanityCheck spec proof"
    and "leafHash spec proof (Path spec key) value (hexSum sumArg) = Inr (leaf, updates)"
  shows "VerifySumProof spec proof root key value sumArg
           = (case foldSideNodes spec (Path spec key) (length (SideNodes proof))
                     (SideNodes proof) 0 leaf of
                Inl err \<Rightarrow> (False, Some err)
              | Inr h \<Rightarrow> (h = root, None))"
proof -
  from assms(1) have len: "\<forall>v \<in> set (SideNodes proof). length v = hashSize spec + 16"
    by (simp add: sanityCheck_iff)
  show ?thesis
    using assms recomputeLoop_fold [OF len, of "Path spec key" 0 leaf updates, symmetric]
    by (cases "recomputeLoop spec (SideNodes proof) (Path spec key) 0 leaf updates")
       (auto simp: VerifySumProof_def verifySumProofWithUpdates_def recomputeRoot_def Let_def)
qed

text \<open>
  C2. \<open>VerifySumProof\<close> returns true (and then no error) exactly when the proof
  passes the sanity check, the expected leaf encoding is determined, and folding all
  sidenodes over it ends in a \<open>hash\<parallel>sum\<close> equal to the supplied root, byte for
  byte: the roots are compared as whole byte strings, digest and sum alike.
\<close>

theorem VerifySumProof_true_iff:
  "(VerifySumProof spec proof root key value sumArg = (True, None) \<longleftrightarrow>
      sanityCheck spec proof \<and>
      (\<exists>leaf updates.
         leafHash spec proof (Path spec key) value (hexSum sumArg) = Inr (leaf, updates) \<and>
         foldSideNodes spec (Path spec key) (length (SideNodes proof)) (SideNodes proof) 0 leaf
           = Inr root)) \<and>
   (fst (VerifySumProof spec proof root key value sumArg) \<longleftrightarrow>
      VerifySumProof spec proof root key value sumArg = (True, None))"
proof (cases "sanityCheck spec proof")
  case False
  then show ?thesis
    by (simp add: VerifySumProof_def verifySumProofWithUpdates_def)
next
  case sane: True
  show ?thesis
  proof (cases "leafHash spec proof (Path spec key) value (hexSum sumArg)")
    case (Inl err)
    with sane show ?thesis
      by (simp add: VerifySumProof_def verifySumProofWithUpdates_def)
  next
    case (Inr res)
    then obtain leaf updates where
      "leafHash spec proof (Path spec key) value (hexSum sumArg) = Inr (leaf, updates)"
      by (cases res) simp
    with sane VerifySumProof_fold [OF sane this, of root] show ?thesis
      by (auto split: sum.splits)
  qed
qed

theorem VerifySumProof_true_iff_witness:
  "VerifySumProof exampleSpec
     \<lparr>SideNodes = [9 # hexSum 3, 14 # hexSum 2], NonMembershipLeafData = None,
      SiblingData = None\<rparr> (183 # hexSum 10) [128] [7] 5 = (True, None) \<and>
   VerifySumProof exampleSpec
     \<lparr>SideNodes = [9 # hexSum 3, 14 # hexSum 2], NonMembershipLeafData = None,
      SiblingData = None\<rparr> (183 # hexSum 11) [128] [7] 5 \<noteq> (True, None)"
proof -
  let ?p = "\<lparr>SideNodes = [9 # hexSum 3, 14 # hexSum 2], NonMembershipLeafData = None,
      SiblingData = None\<rparr>"
  have s: "sanityCheck exampleSpec ?p"
    by (simp add: sanityCheck_def exampleSpec_def length_hexSum)
  have l: "leafHash exampleSpec ?p (Path exampleSpec [128]) [7] (hexSum 5)
             = Inr (140 # hexSum 5, [(140 # hexSum 5, [0, 128, 7] @ hexSum 5)])"
    by code_simp
  have f: "foldSideNodes exampleSpec (Path exampleSpec [128]) (length (SideNodes ?p))
             (SideNodes ?p) 0 (140 # hexSum 5) = Inr (183 # hexSum 10)"
    by code_simp
  have n: "183 # hexSum 10 \<noteq> 183 # hexSum 11"
    by (simp add: hexSum_def PutUint64_def)
  from VerifySumProof_true_iff [of exampleSpec ?p "183 # hexSum 10" "[128]" "[7]" 5]
    VerifySumProof_true_iff [of exampleSpec ?p "183 # hexSum 11" "[128]" "[7]" 5]
    s l f n
  show ?thesis
    by simp
qed

section \<open>Properties of the sum tree\<close>

lemma SMST_Get_stored:
  assumes "storeError smt = None"
    and "entries smt (Path spec key) = Some (valueDigest @ PutUint64 sumArg)"
  shows "SMST_Get spec smt key = Inr (valueDigest, sumArg)"
  using assms
  by (simp add: SMST_Get_def SMT_Get_def defaultValue_def sumSize_def length_PutUint64
      copyBytes_same_length Uint64_PutUint64 PutUint64_not_Nil)

text \<open>
  C8. After \<open>SMST.Update(key, value, sum)\<close> has succeeded, \<open>SMST.Get(key)\<close> returns
  the value digest and the sum, read back big-endian from the eight trailing bytes
  that the update appended to the digest, and the result of \<open>Get\<close> for a key with
  another path is as before. A key bound to a digest followed by an eight-byte sum
  resolves to that digest and sum; an absent key resolves to the \<open>defaultValue\<close>
  sentinel and sum 0. \<open>Get\<close> yields a result only: the tree is as it was.
\<close>

theorem SMST_Get_result:
  "(\<forall>smt'. SMST_Update spec smt key value sumArg = Inr smt' \<longrightarrow>
      SMST_Get spec smt' key = Inr (digestValue spec value, sumArg) \<and>
      (\<forall>key'. Path spec key' \<noteq> Path spec key \<longrightarrow>
         SMST_Get spec smt' key' = SMST_Get spec smt key')) \<and>
   (storeError smt = None \<and> entries smt (Path spec key) = Some (valueDigest @ PutUint64 s) \<longrightarrow>
      SMST_Get spec smt key = Inr (valueDigest, s)) \<and>
   (storeError smt = None \<and> entries smt (Path spec key) = None \<longrightarrow>
      SMST_Get spec smt key = Inr (defaultValue, 0))"
proof -
  have upd: "SMST_Get spec smt' key = Inr (digestValue spec value, sumArg) \<and>
      (\<forall>key'. Path spec key' \<noteq> Path spec key \<longrightarrow>
         SMST_Get spec smt' key' = SMST_Get spec smt key')"
    if "SMST_Update spec smt key value sumArg = Inr smt'" for smt'
  proof -
    from that have ok: "storeError smt = None"
      and smt': "smt' = smt\<lparr>entries := (entries smt)(Path spec key \<mapsto>
                         digestValue spec value @ PutUint64 sumArg)\<rparr>"
      by (auto simp: SMST_Update_def SMT_Update_def Let_def sumSize_def length_PutUint64
          copyBytes_same_length split: option.splits)
    have "SMST_Get spec smt' key = Inr (digestValue spec value, sumArg)"
      by (rule SMST_Get_stored) (simp_all add: smt' ok)
    moreover have "SMST_Get spec smt' key' = SMST_Get spec smt key'"
      if "Path spec key' \<noteq> Path spec key" for key'
    proof -
      from that have "SMT_Get spec smt' key' = SMT_Get spec smt key'"
        by (simp add: SMT_Get_def smt' ok)
      then show ?thesis
        by (simp add: SMST_Get_def)
    qed
    ultimately show ?thesis by blast
  qed
  have absent: "SMST_Get spec smt key = Inr (defaultValue, 0)"
    if "storeError smt = None" "entries smt (Path spec key) = None"
    using that by (simp add: SMST_Get_def SMT_Get_def)
  from upd absent SMST_Get_stored [of smt spec key valueDigest s] show ?thesis
    by blast
qed

theorem SMST_Get_result_witness:
  "SMST_Get exampleSpec \<lparr>entries = Map.empty, storeError = None\<rparr> [1] = Inr (defaultValue, 0) \<and>
   SMST_Update exampleSpec \<lparr>entries = Map.empty, storeError = None\<rparr> [1] [7] 5
     = Inr \<lparr>entries = [[1] \<mapsto> [7] @ PutUint64 5], storeError = None\<rparr> \<and>
   SMST_Get exampleSpec \<lparr>entries = [[1] \<mapsto> [7] @ PutUint64 5], storeError = None\<rparr> [1]
     = Inr ([7], 5) \<and>
   SMST_Get exampleSpec \<lparr>entries = [[1] \<mapsto> [7] @ PutUint64 5], storeError = None\<rparr> [2]
     = Inr (defaultValue, 0)"
proof -
  let ?smt = "\<lparr>entries = Map.empty, storeError = None\<rparr>"
  let ?smt' = "\<lparr>entries = [[1] \<mapsto> [7] @ PutUint64 5], storeError = None\<rparr>"
  have u: "SMST_Update exampleSpec ?smt [1] [7] 5 = Inr ?smt'"
    by (simp add: SMST_Update_def SMT_Update_def exampleSpec_def exDigest_def copyBytes_def
        sumSize_def length_PutUint64)
  have p: "Path exampleSpec [2] \<noteq> Path exampleSpec [1]" "Path exampleSpec [1] = [1]"
    "Path exampleSpec [2] = [2]" "digestValue exampleSpec [7] = [7]"
    by (simp_all add: exampleSpec_def copyBytes_def exDigest_def)
  from SMST_Get_result [of exampleSpec ?smt "[1]" "[7]" 5 "[]" 0]
    SMST_Get_result [of exampleSpec ?smt "[2]" "[7]" 5 "[]" 0] u p
  show ?thesis
    by simp
qed

section \<open>Properties of the closest-key query\<close>

text \<open>
  C9. On the empty tree \<open>ProveClosest\<close> returns a nil key, a nil value, sum 0 and the
  empty proof; the root of the empty tree is the placeholder encoding, and the code
  of \<open>VerifySumProof\<close> accepts the empty proof against it for the nil key, the nil
  value and sum 0. On a tree that is a single leaf, \<open>ProveClosest\<close> returns that
  leaf's path, value digest and sum, whatever the query path.
\<close>

theorem ProveClosest_empty_and_single:
  "ProveClosest spec Placeholder path
     = Inr (None, None, 0,
            \<lparr>SideNodes = [], NonMembershipLeafData = None, SiblingData = None\<rparr>) \<and>
   Root spec Placeholder = Inr (sumPlaceholder spec) \<and>
   VerifySumProof spec \<lparr>SideNodes = [], NonMembershipLeafData = None, SiblingData = None\<rparr>
     (sumPlaceholder spec) (bytesOf None) (bytesOf None) 0 = (True, None) \<and>
   ProveClosest spec (Leaf leafPath valueHash leafSum) path
     = Inr (Some leafPath, Some valueHash, leafSum,
            \<lparr>SideNodes = [], NonMembershipLeafData = None, SiblingData = None\<rparr>)"
  using VerifySumProof_emptyProof_default [of spec "[]" 0]
  by (simp add: ProveClosest_def Root_def bytesOf_def defaultValue_def)

end
